theory Spec2Isabelle
  imports Main "HOL-Library.AList" "HOL-Library.Multiset" "HOL-Library.Monad_Syntax"
begin

section \<open>Secret Santa cycle generator: the embedding of \<^verbatim>\<open>secret_santa.py\<close>\<close>

text \<open>
  Participants are opaque identifiers (strings in the tool); all functions are polymorphic
  in the identifier type \<open>'a\<close>.

  A Python \<^verbatim>\<open>dict\<close> of partners is an association list in insertion order, with
  pairwise distinct keys (\<open>distinct (map fst d)\<close>); \<^verbatim>\<open>partners=None\<close> is \<open>None\<close>.
  \<^verbatim>\<open>d[k] = v\<close> is \<open>AList.update k v d\<close> (an existing key keeps its position, a new one
  is appended), \<^verbatim>\<open>k in d\<close> together with \<^verbatim>\<open>d[k]\<close> is \<open>map_of d k\<close>.

  The program has three sources of nondeterminism, all of them explicit parameters here:
  \<^item> \<^verbatim>\<open>random.random() < 0.5\<close>: the outcome of the \<open>k\<close>-th draw is \<open>coin rng k\<close>;
  \<^item> \<^verbatim>\<open>random.shuffle\<close>: the two calls are \<open>shuffle_a rng\<close> and \<open>shuffle_b rng\<close>, which
    may be any permutation (\<open>is_shuffle\<close>);
  \<^item> the iteration order of a Python \<^verbatim>\<open>set\<close>: \<open>set_order xs\<close> is the order in which the
    set built from the elements \<open>xs\<close> is iterated, any duplicate-free enumeration of
    the same elements (\<open>set_iteration\<close>).
\<close>

subsection \<open>Data model\<close>

type_synonym 'a pydict = "('a \<times> 'a) list"

record 'a rng =
  coin :: "nat \<Rightarrow> bool"
  shuffle_a :: "'a list \<Rightarrow> 'a list"
  shuffle_b :: "'a list \<Rightarrow> 'a list"

definition is_shuffle :: "('a list \<Rightarrow> 'a list) \<Rightarrow> bool" where
  "is_shuffle f \<longleftrightarrow> (\<forall>xs. mset (f xs) = mset xs)"

definition fair_rng :: "'a rng \<Rightarrow> bool" where
  "fair_rng rng \<longleftrightarrow> is_shuffle (shuffle_a rng) \<and> is_shuffle (shuffle_b rng)"

definition set_iteration :: "('a list \<Rightarrow> 'a list) \<Rightarrow> bool" where
  "set_iteration set_order \<longleftrightarrow> (\<forall>xs. distinct (set_order xs) \<and> set (set_order xs) = set xs)"

text \<open>The three \<^verbatim>\<open>ValueError\<close>s of \<^verbatim>\<open>validate_and_deduplicate_inputs\<close>, by message, and
  its two printed warnings, each with the number it reports.\<close>

datatype 'a error =
    InsufficientParticipants
  | TooManyPartnerships nat
  | UnknownPartner 'a

datatype warning =
    DuplicateParticipants nat
  | DuplicatePartnerships nat

text \<open>Python truthiness of \<^verbatim>\<open>partners\<close>: \<^verbatim>\<open>None\<close> and the empty dict are false.\<close>

definition truthy :: "'a pydict option \<Rightarrow> bool" where
  "truthy partners = (case partners of None \<Rightarrow> False | Some d \<Rightarrow> d \<noteq> [])"

text \<open>\<^verbatim>\<open>partners.get(p)\<close>, also the guarded read \<^verbatim>\<open>partners and p in partners\<close> followed
  by \<^verbatim>\<open>partners[p]\<close>: \<open>None\<close> when there is no dict or no such key.\<close>

definition partners_get :: "'a pydict option \<Rightarrow> 'a \<Rightarrow> 'a option" where
  "partners_get partners p = (case partners of None \<Rightarrow> None | Some d \<Rightarrow> map_of d p)"

text \<open>\<^verbatim>\<open>xs[i]\<close> on a list: a negative index counts from the end, and an index out of
  range raises \<^verbatim>\<open>IndexError\<close>, which is \<open>None\<close> here (the only exception the cycle code
  can raise).\<close>

definition py_index :: "'a list \<Rightarrow> int \<Rightarrow> 'a option" where
  "py_index xs i =
     (if 0 \<le> i \<and> i < int (length xs) then Some (xs ! nat i)
      else if i < 0 \<and> - int (length xs) \<le> i then Some (xs ! nat (int (length xs) + i))
      else None)"

subsection \<open>\<^verbatim>\<open>partition_into_sets\<close> (lines 14-43)\<close>

text \<open>The loop state is \<open>(set_a, set_b, assigned, k)\<close>, where \<open>k\<close> counts the random draws
  made so far.\<close>

fun partition_loop ::
  "(nat \<Rightarrow> bool) \<Rightarrow> 'a pydict option \<Rightarrow> 'a list \<Rightarrow>
     'a list \<times> 'a list \<times> 'a set \<times> nat \<Rightarrow> 'a list \<times> 'a list \<times> 'a set \<times> nat" where
  "partition_loop cn partners [] st = st"
| "partition_loop cn partners (p # rest) (set_a, set_b, assigned, k) =
     (if p \<in> assigned then partition_loop cn partners rest (set_a, set_b, assigned, k)
      else
        (case partners_get partners p of
           Some partner \<Rightarrow>
             (if cn k
              then partition_loop cn partners rest
                     (set_a @ [p], set_b @ [partner], insert partner (insert p assigned), Suc k)
              else partition_loop cn partners rest
                     (set_a @ [partner], set_b @ [p], insert partner (insert p assigned), Suc k))
         | None \<Rightarrow>
             (if length set_a \<le> length set_b
              then partition_loop cn partners rest (set_a @ [p], set_b, insert p assigned, k)
              else partition_loop cn partners rest (set_a, set_b @ [p], insert p assigned, k))))"

definition partition_into_sets ::
  "(nat \<Rightarrow> bool) \<Rightarrow> 'a list \<Rightarrow> 'a pydict option \<Rightarrow> 'a list \<times> 'a list" where
  "partition_into_sets cn participants partners =
     (case partition_loop cn partners participants ([], [], {}, 0) of
        (set_a, set_b, assigned, k) \<Rightarrow> (set_a, set_b))"

subsection \<open>\<^verbatim>\<open>create_secret_santa_cycle\<close> (lines 45-84)\<close>

text \<open>The swap loop of lines 66-69 and 72-75, over the indices \<^verbatim>\<open>range(1, len(xs))\<close>:
  the first element that differs from \<open>avoid\<close> (the value of \<^verbatim>\<open>partners.get(...)\<close>) is
  exchanged with the element at position 0, and the loop breaks.\<close>

fun swap_first_allowed :: "'a list \<Rightarrow> 'a option \<Rightarrow> nat list \<Rightarrow> 'a list option" where
  "swap_first_allowed xs avoid [] = Some xs"
| "swap_first_allowed xs avoid (i # rest) =
     do {
       x_i \<leftarrow> py_index xs (int i);
       if Some x_i \<noteq> avoid
       then do { x_0 \<leftarrow> py_index xs 0; Some (xs[0 := x_i, i := x_0]) }
       else swap_first_allowed xs avoid rest
     }"

text \<open>The comprehension of lines 78-79, over the indices \<^verbatim>\<open>range(len(xs) - 1)\<close>.\<close>

fun chain_links :: "'a list \<Rightarrow> nat list \<Rightarrow> ('a \<times> 'a) list option" where
  "chain_links xs [] = Some []"
| "chain_links xs (i # rest) =
     do {
       giver \<leftarrow> py_index xs (int i);
       receiver \<leftarrow> py_index xs (int i + 1);
       links \<leftarrow> chain_links xs rest;
       Some ((giver, receiver) # links)
     }"

text \<open>Step 3 (lines 59-75). The four endpoints are read before either swap.\<close>

definition resolve_conflicts ::
  "'a pydict option \<Rightarrow> 'a list \<Rightarrow> 'a list \<Rightarrow> ('a list \<times> 'a list) option" where
  "resolve_conflicts partners set_a set_b =
     (if truthy partners then
        do {
          a_last \<leftarrow> py_index set_a (- 1);
          b_first \<leftarrow> py_index set_b 0;
          b_last \<leftarrow> py_index set_b (- 1);
          a_first \<leftarrow> py_index set_a 0;
          set_b' \<leftarrow>
            (if partners_get partners a_last = Some b_first
             then swap_first_allowed set_b (partners_get partners a_last) [1..<length set_b]
             else Some set_b);
          set_a' \<leftarrow>
            (if partners_get partners b_last = Some a_first
             then swap_first_allowed set_a (partners_get partners b_last) [1..<length set_a]
             else Some set_a);
          Some (set_a', set_b')
        }
      else Some (set_a, set_b))"

definition create_secret_santa_cycle ::
  "'a rng \<Rightarrow> 'a list \<Rightarrow> 'a pydict option \<Rightarrow> ('a \<times> 'a) list option" where
  "create_secret_santa_cycle rng participants partners =
     (case partition_into_sets (coin rng) participants partners of
        (set_a0, set_b0) \<Rightarrow>
          do {
            (set_a, set_b) \<leftarrow>
              resolve_conflicts partners (shuffle_a rng set_a0) (shuffle_b rng set_b0);
            cycle_a \<leftarrow> chain_links set_a [0..<length set_a - 1];
            cycle_b \<leftarrow> chain_links set_b [0..<length set_b - 1];
            a_last \<leftarrow> py_index set_a (- 1);
            b_first \<leftarrow> py_index set_b 0;
            b_last \<leftarrow> py_index set_b (- 1);
            a_first \<leftarrow> py_index set_a 0;
            Some (cycle_a @ [(a_last, b_first), (b_last, a_first)] @ cycle_b)
          })"

subsection \<open>\<^verbatim>\<open>validate_and_deduplicate_inputs\<close> (lines 86-123)\<close>

text \<open>The loop of lines 102-104 over \<^verbatim>\<open>partners.items()\<close>; \<open>acc\<close> is
  \<^verbatim>\<open>deduplicated_partners\<close>. A pair \<^verbatim>\<open>(p2, p1)\<close> is in the items of a dict when the key
  \<^verbatim>\<open>p2\<close> is present with the value \<^verbatim>\<open>p1\<close>.\<close>

fun dedup_loop :: "'a pydict \<Rightarrow> 'a pydict \<Rightarrow> 'a pydict" where
  "dedup_loop [] acc = acc"
| "dedup_loop ((p1, p2) # rest) acc =
     (if map_of acc p2 \<noteq> Some p1 then dedup_loop rest (AList.update p1 p2 acc)
      else dedup_loop rest acc)"

text \<open>Lines 99-107: the partners after deduplication, and the warning printed.\<close>

definition deduplicate_partners :: "'a pydict option \<Rightarrow> 'a pydict option \<times> warning list" where
  "deduplicate_partners partners =
     (case partners of
        None \<Rightarrow> (None, [])
      | Some d \<Rightarrow>
          if d \<noteq> [] then
            (let deduplicated_partners = dedup_loop d []
             in (Some deduplicated_partners,
                 if length deduplicated_partners < length d
                 then [DuplicatePartnerships (length d - length deduplicated_partners)]
                 else []))
          else (Some d, []))"

text \<open>Lines 113-121: \<^verbatim>\<open>unique_partners\<close> is a Python set, iterated in the order
  \<open>set_order\<close> gives it.\<close>

definition validate_partnerships ::
  "('a list \<Rightarrow> 'a list) \<Rightarrow> 'a list \<Rightarrow> 'a pydict option \<Rightarrow> 'a error option" where
  "validate_partnerships set_order participants partners =
     (case partners of
        None \<Rightarrow> None
      | Some d \<Rightarrow>
          if d \<noteq> [] then
            (let max_partners = length participants div 2;
                 unique_partners = set_order (map fst d @ map snd d)
             in if length unique_partners > max_partners * 2
                then Some (TooManyPartnerships max_partners)
                else (case find (\<lambda>partner. partner \<notin> set participants) unique_partners of
                        Some partner \<Rightarrow> Some (UnknownPartner partner)
                      | None \<Rightarrow> None))
          else None)"

text \<open>The result is the list of warnings printed, and either the error raised or the
  pair returned.\<close>

definition validate_and_deduplicate_inputs ::
  "('a list \<Rightarrow> 'a list) \<Rightarrow> 'a list \<Rightarrow> 'a pydict option \<Rightarrow>
     warning list \<times> ('a error + 'a list \<times> 'a pydict option)" where
  "validate_and_deduplicate_inputs set_order participants0 partners0 =
     (let participants = set_order participants0;
          w1 = (if length participants < length participants0
                then [DuplicateParticipants (length participants0 - length participants)]
                else []);
          (partners, w2) = deduplicate_partners partners0
      in (w1 @ w2,
          if length participants \<le> 2 then Inl InsufficientParticipants
          else (case validate_partnerships set_order participants partners of
                  Some e \<Rightarrow> Inl e
                | None \<Rightarrow> Inr (participants, partners))))"

subsection \<open>\<^verbatim>\<open>main\<close> (lines 140-161)\<close>

text \<open>The arguments are what \<^verbatim>\<open>read_participants\<close> and \<^verbatim>\<open>read_partners\<close> returned; the
  result is what the run prints, line by line. \<open>Traceback\<close> is an exception that
  \<^verbatim>\<open>except ValueError\<close> does not catch.\<close>

datatype 'a line =
    WarningLine warning
  | ErrorLine "'a error"
  | CycleHeader
  | EdgeLine 'a 'a
  | Traceback

definition main ::
  "'a rng \<Rightarrow> ('a list \<Rightarrow> 'a list) \<Rightarrow> 'a list \<Rightarrow> 'a pydict option \<Rightarrow> 'a line list" where
  "main rng set_order participants0 partners0 =
     (case validate_and_deduplicate_inputs set_order participants0 partners0 of
        (warnings, Inl e) \<Rightarrow> map WarningLine warnings @ [ErrorLine e]
      | (warnings, Inr (participants, partners)) \<Rightarrow>
          map WarningLine warnings @
          (case create_secret_santa_cycle rng participants partners of
             None \<Rightarrow> [Traceback]
           | Some cycle \<Rightarrow> CycleHeader # map (\<lambda>(giver, receiver). EdgeLine giver receiver) cycle))"

subsection \<open>Notions the statements use\<close>

text \<open>The individuals involved in a partnership mapping, as keys or as values.\<close>

definition partnered_individuals :: "'a pydict option \<Rightarrow> 'a set" where
  "partnered_individuals partners =
     (case partners of None \<Rightarrow> {} | Some d \<Rightarrow> fst ` set d \<union> snd ` set d)"

text \<open>A Python dict has each key once.\<close>

definition wf_partners :: "'a pydict option \<Rightarrow> bool" where
  "wf_partners partners = (case partners of None \<Rightarrow> True | Some d \<Rightarrow> distinct (map fst d))"

text \<open>The properties of a cycle and of the two groups that the claims are about: every
  participant is a giver once and a receiver once; no edge from a participant to
  themselves; no edge between partners, in either direction; no partnership with
  both members in one group.\<close>

definition visits_each_once :: "'a list \<Rightarrow> ('a \<times> 'a) list \<Rightarrow> bool" where
  "visits_each_once participants cycle \<longleftrightarrow>
     mset (map fst cycle) = mset participants \<and> mset (map snd cycle) = mset participants"

definition no_self_edge :: "('a \<times> 'a) list \<Rightarrow> bool" where
  "no_self_edge cycle = list_all (\<lambda>(giver, receiver). giver \<noteq> receiver) cycle"

definition respects_partners :: "'a pydict option \<Rightarrow> ('a \<times> 'a) list \<Rightarrow> bool" where
  "respects_partners partners cycle =
     list_all (\<lambda>(giver, receiver). partners_get partners giver \<noteq> Some receiver
                                 \<and> partners_get partners receiver \<noteq> Some giver) cycle"

definition separates :: "'a pydict option \<Rightarrow> 'a list \<Rightarrow> 'a list \<Rightarrow> bool" where
  "separates partners set_a set_b =
     (case partners of
        None \<Rightarrow> True
      | Some d \<Rightarrow> list_all (\<lambda>(k, v). \<not> (k \<in> set set_a \<and> v \<in> set set_a)
                                  \<and> \<not> (k \<in> set set_b \<and> v \<in> set set_b)) d)"

text \<open>Two conditions on a partnership mapping and a participant list under which the
  partitioner is shown to be right: no identifier occurs twice among the keys and
  values of the mapping (each partnership is stored in one direction, and nobody has
  two partners), and no participant is listed before the key whose partner they are.\<close>

definition one_way :: "'a pydict option \<Rightarrow> bool" where
  "one_way partners =
     (case partners of None \<Rightarrow> True | Some d \<Rightarrow> distinct (map fst d @ map snd d))"

fun keys_first :: "'a pydict option \<Rightarrow> 'a list \<Rightarrow> bool" where
  "keys_first partners [] = True"
| "keys_first partners (p # rest) =
     (list_all (\<lambda>k. partners_get partners k \<noteq> Some p) rest \<and> keys_first partners rest)"

section \<open>Input normalizer\<close>

subsection \<open>Auxiliary facts\<close>

lemma set_iteration_length:
  "set_iteration so \<Longrightarrow> length (so xs) = card (set xs)"
  by (metis distinct_card set_iteration_def)

lemma set_iteration_set: "set_iteration so \<Longrightarrow> set (so xs) = set xs"
  by (simp add: set_iteration_def)

lemma set_iteration_remdups: "set_iteration remdups"
  by (simp add: set_iteration_def)

lemma validate_partnerships_not_insufficient:
  "validate_partnerships so ps pr \<noteq> Some InsufficientParticipants"
  by (auto simp: validate_partnerships_def Let_def split: option.splits)

lemma snd_validate:
  "snd (validate_and_deduplicate_inputs so ps pr) =
     (if length (so ps) \<le> 2 then Inl InsufficientParticipants
      else (case validate_partnerships so (so ps) (fst (deduplicate_partners pr)) of
              Some e \<Rightarrow> Inl e | None \<Rightarrow> Inr (so ps, fst (deduplicate_partners pr))))"
  by (cases "deduplicate_partners pr")
     (simp add: validate_and_deduplicate_inputs_def Let_def split: option.splits)

lemma fst_validate:
  "fst (validate_and_deduplicate_inputs so ps pr) =
     (if length (so ps) < length ps then [DuplicateParticipants (length ps - length (so ps))] else [])
     @ snd (deduplicate_partners pr)"
  by (cases "deduplicate_partners pr") (simp add: validate_and_deduplicate_inputs_def Let_def)

lemma unique_partners_card:
  assumes "set_iteration so"
  shows "length (so (map fst d @ map snd d)) = card (partnered_individuals (Some d))"
  using set_iteration_length [OF assms, of "map fst d @ map snd d"]
  by (simp add: partnered_individuals_def)

lemma partnered_individuals_Nil: "partnered_individuals (Some []) = {}"
  by (simp add: partnered_individuals_def)

lemma partnered_individuals_None: "partnered_individuals None = {}"
  by (simp add: partnered_individuals_def)

lemma validate_partnerships_too_many:
  assumes "set_iteration so"
  shows "(\<exists>m. validate_partnerships so ps pr = Some (TooManyPartnerships m))
         \<longleftrightarrow> card (partnered_individuals pr) > 2 * (length ps div 2)"
proof (cases pr)
  case None
  then show ?thesis by (simp add: validate_partnerships_def partnered_individuals_None)
next
  case (Some d)
  show ?thesis
  proof (cases "d = []")
    case True
    with Some show ?thesis by (simp add: validate_partnerships_def partnered_individuals_Nil)
  next
    case False
    with Some show ?thesis
      by (auto simp: validate_partnerships_def Let_def unique_partners_card [OF assms] mult.commute
               split: option.splits)
  qed
qed

lemma find_Some_ex: "(\<exists>x. find P xs = Some x) \<longleftrightarrow> (\<exists>x\<in>set xs. P x)"
  by (induction xs) auto

lemma validate_partnerships_unknown:
  assumes "set_iteration so" "card (partnered_individuals pr) \<le> 2 * (length ps div 2)"
  shows "(\<exists>x. validate_partnerships so ps pr = Some (UnknownPartner x))
         \<longleftrightarrow> (\<exists>x\<in>partnered_individuals pr. x \<notin> set ps)"
proof (cases pr)
  case None
  then show ?thesis by (simp add: validate_partnerships_def partnered_individuals_None)
next
  case (Some d)
  show ?thesis
  proof (cases "d = []")
    case True
    with Some show ?thesis by (simp add: validate_partnerships_def partnered_individuals_Nil)
  next
    case False
    have s: "set (so (map fst d @ map snd d)) = partnered_individuals (Some d)"
      using set_iteration_set [OF assms(1), of "map fst d @ map snd d"]
      by (simp add: partnered_individuals_def)
    have "(\<exists>x. find (\<lambda>p. p \<notin> set ps) (so (map fst d @ map snd d)) = Some x)
          \<longleftrightarrow> (\<exists>x\<in>partnered_individuals (Some d). x \<notin> set ps)"
      unfolding find_Some_ex s ..
    moreover have "\<not> length (so (map fst d @ map snd d)) > length ps div 2 * 2"
      using assms(2) Some by (simp add: unique_partners_card [OF assms(1)] mult.commute)
    ultimately show ?thesis
      using False Some
      by (auto simp: validate_partnerships_def Let_def split: option.splits)
  qed
qed

lemma dedup_loop_append: "dedup_loop (xs @ ys) acc = dedup_loop ys (dedup_loop xs acc)"
  by (induction xs acc rule: dedup_loop.induct) auto

lemma update_fresh_key: "k \<notin> fst ` set acc \<Longrightarrow> AList.update k v acc = acc @ [(k, v)]"
  by (induction acc) auto

lemma dedup_loop_replay:
  assumes "dedup_loop acc [] = acc" and "distinct (map fst items)"
    and "fst ` set acc \<inter> fst ` set items = {}"
  shows "dedup_loop (dedup_loop items acc) [] = dedup_loop items acc"
  using assms
proof (induction items acc rule: dedup_loop.induct)
  case (1 acc)
  then show ?case by simp
next
  case (2 p1 p2 rest acc)
  show ?case
  proof (cases "map_of acc p2 \<noteq> Some p1")
    case True
    have fresh: "p1 \<notin> fst ` set acc"
      using "2.prems"(3) by auto
    have upd: "AList.update p1 p2 acc = acc @ [(p1, p2)]"
      using fresh by (rule update_fresh_key)
    have "dedup_loop (acc @ [(p1, p2)]) [] = dedup_loop [(p1, p2)] acc"
      by (simp add: dedup_loop_append "2.prems"(1))
    also have "\<dots> = acc @ [(p1, p2)]"
      using True upd by simp
    finally have replay: "dedup_loop (AList.update p1 p2 acc) [] = AList.update p1 p2 acc"
      by (simp add: upd)
    have disj: "fst ` set (AList.update p1 p2 acc) \<inter> fst ` set rest = {}"
      using "2.prems"(2,3) by (auto simp: upd)
    have "dedup_loop (dedup_loop rest (AList.update p1 p2 acc)) [] = dedup_loop rest (AList.update p1 p2 acc)"
      using "2.IH"(1) [OF True replay _ disj] "2.prems"(2) by simp
    with True show ?thesis by simp
  next
    case False
    have disj: "fst ` set acc \<inter> fst ` set rest = {}"
      using "2.prems"(3) by auto
    have "dedup_loop (dedup_loop rest acc) [] = dedup_loop rest acc"
      using "2.IH"(2) [OF False "2.prems"(1) _ disj] "2.prems"(2) by simp
    with False show ?thesis by simp
  qed
qed

lemma dedup_loop_idem:
  "distinct (map fst d) \<Longrightarrow> dedup_loop (dedup_loop d []) [] = dedup_loop d []"
  by (rule dedup_loop_replay) simp_all

lemma deduplicate_partners_idem:
  assumes "wf_partners pr"
  shows "deduplicate_partners (fst (deduplicate_partners pr)) = (fst (deduplicate_partners pr), [])"
proof (cases pr)
  case None
  then show ?thesis by (simp add: deduplicate_partners_def)
next
  case (Some d)
  then have "distinct (map fst d)"
    using assms by (simp add: wf_partners_def)
  then have "dedup_loop (dedup_loop d []) [] = dedup_loop d []"
    by (rule dedup_loop_idem)
  then show ?thesis
    using Some by (simp add: deduplicate_partners_def Let_def)
qed

lemma validate_partnerships_None_iff:
  assumes "set_iteration so"
  shows "validate_partnerships so ps pr = None
         \<longleftrightarrow> card (partnered_individuals pr) \<le> 2 * (length ps div 2)
             \<and> partnered_individuals pr \<subseteq> set ps"
proof (cases "truthy pr")
  case False
  then show ?thesis
    by (auto simp: truthy_def validate_partnerships_def partnered_individuals_def
             split: option.splits)
next
  case True
  then obtain d where d: "pr = Some d" "d \<noteq> []"
    by (auto simp: truthy_def split: option.splits)
  have s: "set (so (map fst d @ map snd d)) = partnered_individuals (Some d)"
    using set_iteration_set [OF assms, of "map fst d @ map snd d"]
    by (simp add: partnered_individuals_def)
  have f: "find (\<lambda>p. p \<notin> set ps) (so (map fst d @ map snd d)) = None
           \<longleftrightarrow> partnered_individuals (Some d) \<subseteq> set ps"
    by (auto simp: find_None_iff s)
  show ?thesis
    using d f
    by (auto simp: validate_partnerships_def Let_def unique_partners_card [OF assms]
                   mult.commute split: option.splits)
qed

subsection \<open>The validation errors\<close>

text \<open>
  Claim C7. \<^verbatim>\<open>validate_and_deduplicate_inputs\<close> raises the insufficient-participants
  error exactly when fewer than 3 distinct participants remain after deduplication,
  whatever the partners are.
\<close>

theorem insufficient_participants_iff:
  assumes "set_iteration so"
  shows "snd (validate_and_deduplicate_inputs so ps pr) = Inl InsufficientParticipants
         \<longleftrightarrow> card (set ps) < 3"
proof -
  have len: "length (so ps) = card (set ps)"
    using assms by (rule set_iteration_length)
  show ?thesis
    using validate_partnerships_not_insufficient [of so "so ps" "fst (deduplicate_partners pr)"]
    by (auto simp: snd_validate len split: option.splits)
qed

theorem insufficient_participants_witness:
  "set_iteration (remdups :: string list \<Rightarrow> string list)
   \<and> snd (validate_and_deduplicate_inputs remdups [''Alice'', ''Bob''] None)
       = Inl InsufficientParticipants
   \<and> snd (validate_and_deduplicate_inputs remdups [''Alice'', ''Bob'', ''Carol''] None)
       \<noteq> Inl InsufficientParticipants"
proof -
  have h: "set_iteration (remdups :: string list \<Rightarrow> string list)"
    by (simp add: set_iteration_def)
  have two: "card (set [''Alice'', ''Bob'']) < 3"
    by simp
  have three: "\<not> card (set [''Alice'', ''Bob'', ''Carol'']) < 3"
    by simp
  show ?thesis
    using h two three
      insufficient_participants_iff [OF h, of "[''Alice'', ''Bob'']" None]
      insufficient_participants_iff [OF h, of "[''Alice'', ''Bob'', ''Carol'']" None]
    by simp
qed

text \<open>
  Claim C9. With at least 3 distinct participants, the too-many-partnerships error is
  raised exactly when the deduplicated mapping involves more individuals than
  \<open>2 * (n div 2)\<close>, \<open>n\<close> the number of distinct participants.
\<close>

theorem too_many_partnerships_iff:
  assumes "set_iteration so" and "3 \<le> card (set ps)"
  shows "(\<exists>m. snd (validate_and_deduplicate_inputs so ps pr) = Inl (TooManyPartnerships m))
         \<longleftrightarrow> 2 * (card (set ps) div 2) < card (partnered_individuals (fst (deduplicate_partners pr)))"
proof -
  have len: "length (so ps) = card (set ps)"
    using assms(1) by (rule set_iteration_length)
  have "(\<exists>m. snd (validate_and_deduplicate_inputs so ps pr) = Inl (TooManyPartnerships m))
        \<longleftrightarrow> (\<exists>m. validate_partnerships so (so ps) (fst (deduplicate_partners pr)) = Some (TooManyPartnerships m))"
    using assms(2) by (auto simp: snd_validate len split: option.splits)
  then show ?thesis
    by (simp add: validate_partnerships_too_many [OF assms(1)] len)
qed

theorem too_many_partnerships_witness:
  "set_iteration (remdups :: string list \<Rightarrow> string list)
   \<and> 3 \<le> card (set [''A'', ''B'', ''C''])
   \<and> snd (validate_and_deduplicate_inputs remdups [''A'', ''B'', ''C'']
             (Some [(''A'', ''B''), (''B'', ''A''), (''C'', ''D''), (''D'', ''C'')]))
       = Inl (TooManyPartnerships 1)"
proof -
  have h: "set_iteration (remdups :: string list \<Rightarrow> string list)"
    by (simp add: set_iteration_def)
  have n: "3 \<le> card (set [''A'', ''B'', ''C''])"
    by simp
  have dd: "fst (deduplicate_partners (Some [(''A'', ''B''), (''B'', ''A''), (''C'', ''D''), (''D'', ''C'')]))
            = Some [(''A'', ''B''), (''C'', ''D'')]"
    by (simp add: deduplicate_partners_def)
  have c: "2 * (card (set [''A'', ''B'', ''C'']) div 2)
           < card (partnered_individuals (fst (deduplicate_partners
               (Some [(''A'', ''B''), (''B'', ''A''), (''C'', ''D''), (''D'', ''C'')]))))"
    by (simp add: dd partnered_individuals_def)
  from too_many_partnerships_iff [OF h n, of "Some [(''A'', ''B''), (''B'', ''A''), (''C'', ''D''), (''D'', ''C'')]"] c
  obtain m where m: "snd (validate_and_deduplicate_inputs remdups [''A'', ''B'', ''C'']
             (Some [(''A'', ''B''), (''B'', ''A''), (''C'', ''D''), (''D'', ''C'')])) = Inl (TooManyPartnerships m)"
    by blast
  have "snd (validate_and_deduplicate_inputs remdups [''A'', ''B'', ''C'']
             (Some [(''A'', ''B''), (''B'', ''A''), (''C'', ''D''), (''D'', ''C'')])) = Inl (TooManyPartnerships 1)"
    by (simp add: validate_and_deduplicate_inputs_def validate_partnerships_def deduplicate_partners_def)
  with h n m show ?thesis by simp
qed

text \<open>
  Claim C8. With at least 3 distinct participants and no more partnered individuals than
  the structural maximum, the unknown-partner error is raised exactly when some key or
  value of the deduplicated mapping is not a participant.
\<close>

theorem unknown_partner_iff:
  assumes "set_iteration so" and "3 \<le> card (set ps)"
    and "card (partnered_individuals (fst (deduplicate_partners pr))) \<le> 2 * (card (set ps) div 2)"
  shows "(\<exists>x. snd (validate_and_deduplicate_inputs so ps pr) = Inl (UnknownPartner x))
         \<longleftrightarrow> (\<exists>x\<in>partnered_individuals (fst (deduplicate_partners pr)). x \<notin> set ps)"
proof -
  have len: "length (so ps) = card (set ps)"
    using assms(1) by (rule set_iteration_length)
  have "(\<exists>x. snd (validate_and_deduplicate_inputs so ps pr) = Inl (UnknownPartner x))
        \<longleftrightarrow> (\<exists>x. validate_partnerships so (so ps) (fst (deduplicate_partners pr)) = Some (UnknownPartner x))"
    using assms(2) by (auto simp: snd_validate len split: option.splits)
  also have "\<dots> \<longleftrightarrow> (\<exists>x\<in>partnered_individuals (fst (deduplicate_partners pr)). x \<notin> set (so ps))"
    using assms(3) by (intro validate_partnerships_unknown [OF assms(1)]) (simp add: len)
  finally show ?thesis
    by (simp add: set_iteration_set [OF assms(1)])
qed

theorem unknown_partner_witness:
  "set_iteration (remdups :: string list \<Rightarrow> string list)
   \<and> 3 \<le> card (set [''Alice'', ''Bob'', ''Carol''])
   \<and> snd (validate_and_deduplicate_inputs remdups [''Alice'', ''Bob'', ''Carol'']
             (Some [(''Alice'', ''Dave''), (''Dave'', ''Alice'')]))
       = Inl (UnknownPartner ''Dave'')"
proof -
  have h: "set_iteration (remdups :: string list \<Rightarrow> string list)"
    by (simp add: set_iteration_def)
  have n: "3 \<le> card (set [''Alice'', ''Bob'', ''Carol''])"
    by simp
  have dd: "fst (deduplicate_partners (Some [(''Alice'', ''Dave''), (''Dave'', ''Alice'')]))
            = Some [(''Alice'', ''Dave'')]"
    by (simp add: deduplicate_partners_def)
  have c: "card (partnered_individuals (fst (deduplicate_partners
             (Some [(''Alice'', ''Dave''), (''Dave'', ''Alice'')]))))
           \<le> 2 * (card (set [''Alice'', ''Bob'', ''Carol'']) div 2)"
    by (simp add: dd partnered_individuals_def)
  have e: "snd (validate_and_deduplicate_inputs remdups [''Alice'', ''Bob'', ''Carol'']
             (Some [(''Alice'', ''Dave''), (''Dave'', ''Alice'')]))
       = Inl (UnknownPartner ''Dave'')"
    by (simp add: validate_and_deduplicate_inputs_def validate_partnerships_def deduplicate_partners_def)
  show ?thesis
    using h n e unknown_partner_iff [OF h n c] by simp
qed

subsection \<open>Idempotence\<close>

text \<open>
  Claim C5. Normalizing the output of a successful normalization again prints no warning
  and returns the same participants, up to the order in which the set is iterated, and
  the same partnership mapping. The two runs may iterate sets in different orders.
\<close>

theorem normalization_idempotent:
  assumes so: "set_iteration so" and so': "set_iteration so'"
    and wf: "wf_partners pr"
    and ok: "snd (validate_and_deduplicate_inputs so ps pr) = Inr (ps', pr')"
  shows "validate_and_deduplicate_inputs so' ps' pr' = ([], Inr (so' ps', pr'))
         \<and> set (so' ps') = set ps'"
proof -
  have big: "\<not> length (so ps) \<le> 2"
    using ok by (auto simp: snd_validate split: if_splits)
  have vp: "validate_partnerships so (so ps) (fst (deduplicate_partners pr)) = None"
    using ok big by (auto simp: snd_validate split: option.splits)
  have ps': "ps' = so ps" and pr': "pr' = fst (deduplicate_partners pr)"
    using ok big vp by (auto simp: snd_validate)
  have dist: "distinct ps'"
    using so by (simp add: ps' set_iteration_def)
  have len: "length (so' ps') = length ps'"
    using set_iteration_length [OF so', of ps'] dist by (simp add: distinct_card)
  have set_eq: "set (so' ps') = set ps'"
    using so' by (rule set_iteration_set)
  have dd: "deduplicate_partners pr' = (pr', [])"
    unfolding pr' using wf by (rule deduplicate_partners_idem)
  have "validate_partnerships so' (so' ps') pr' = None"
    using vp unfolding validate_partnerships_None_iff [OF so] validate_partnerships_None_iff [OF so']
    by (simp add: len set_eq ps' [symmetric] pr' [symmetric])
  then have "validate_and_deduplicate_inputs so' ps' pr' = ([], Inr (so' ps', pr'))"
    using big by (simp add: validate_and_deduplicate_inputs_def Let_def dd len ps' [symmetric])
  with set_eq show ?thesis by simp
qed

theorem normalization_idempotent_witness:
  "set_iteration (remdups :: string list \<Rightarrow> string list)
   \<and> set_iteration (rev \<circ> remdups :: string list \<Rightarrow> string list)
   \<and> wf_partners (Some [(''A'', ''B''), (''B'', ''A'')])
   \<and> validate_and_deduplicate_inputs remdups [''A'', ''B'', ''A'', ''C'', ''D'']
        (Some [(''A'', ''B''), (''B'', ''A'')])
      = ([DuplicateParticipants 1, DuplicatePartnerships 1],
         Inr ([''B'', ''A'', ''C'', ''D''], Some [(''A'', ''B'')]))
   \<and> validate_and_deduplicate_inputs (rev \<circ> remdups) [''B'', ''A'', ''C'', ''D'']
        (Some [(''A'', ''B'')])
      = ([], Inr ([''D'', ''C'', ''A'', ''B''], Some [(''A'', ''B'')]))"
proof -
  have h: "set_iteration (remdups :: string list \<Rightarrow> string list)"
    by (simp add: set_iteration_def)
  have h': "set_iteration (rev \<circ> remdups :: string list \<Rightarrow> string list)"
    by (simp add: set_iteration_def)
  have wf: "wf_partners (Some [(''A'', ''B''), (''B'', ''A'')])"
    by (simp add: wf_partners_def)
  have v: "validate_and_deduplicate_inputs remdups [''A'', ''B'', ''A'', ''C'', ''D'']
        (Some [(''A'', ''B''), (''B'', ''A'')])
      = ([DuplicateParticipants 1, DuplicatePartnerships 1],
         Inr ([''B'', ''A'', ''C'', ''D''], Some [(''A'', ''B'')]))"
    by (simp add: validate_and_deduplicate_inputs_def validate_partnerships_def deduplicate_partners_def)
  have ok: "snd (validate_and_deduplicate_inputs remdups [''A'', ''B'', ''A'', ''C'', ''D'']
        (Some [(''A'', ''B''), (''B'', ''A'')])) = Inr ([''B'', ''A'', ''C'', ''D''], Some [(''A'', ''B'')])"
    by (simp add: v)
  show ?thesis
    using h h' wf v normalization_idempotent [OF h h' wf ok] by simp
qed

section \<open>Set partitioner and cycle assembler\<close>

subsection \<open>No read is out of bounds\<close>

lemma py_index_first: "xs \<noteq> [] \<Longrightarrow> py_index xs 0 = Some (hd xs)"
  by (cases xs) (simp_all add: py_index_def)

lemma py_index_last: "xs \<noteq> [] \<Longrightarrow> py_index xs (- 1) = Some (last xs)"
  by (cases xs rule: rev_cases) (simp_all add: py_index_def)

lemma py_index_nat: "i < length xs \<Longrightarrow> py_index xs (int i) = Some (xs ! i)"
  by (simp add: py_index_def)

lemma py_index_Suc: "Suc i < length xs \<Longrightarrow> py_index xs (int i + 1) = Some (xs ! Suc i)"
  using py_index_nat [of "Suc i" xs] by (simp add: add.commute)

lemma swap_first_allowed_total:
  assumes "\<forall>i\<in>set is. i < length xs" and "xs \<noteq> []"
  shows "\<exists>ys. swap_first_allowed xs avoid is = Some ys \<and> mset ys = mset xs"
  using assms
proof (induction "is")
  case Nil
  then show ?case by simp
next
  case (Cons i rest)
  then have i: "i < length xs" and z: "0 < length xs"
    by auto
  have "mset (xs[0 := xs ! i, i := xs ! 0]) = mset xs"
    using i z by (simp add: mset_swap)
  with Cons i show ?case
    by (auto simp: py_index_nat py_index_first hd_conv_nth)
qed

lemma chain_links_total:
  assumes "\<forall>i\<in>set is. Suc i < length xs"
  shows "chain_links xs is = Some (map (\<lambda>i. (xs ! i, xs ! Suc i)) is)"
  using assms by (induction "is") (simp_all add: py_index_nat py_index_Suc)

lemma chain_links_range:
  "chain_links xs [0..<length xs - 1] = Some (map (\<lambda>i. (xs ! i, xs ! Suc i)) [0..<length xs - 1])"
  by (rule chain_links_total) auto

lemma resolve_conflicts_total:
  assumes "set_a \<noteq> []" and "set_b \<noteq> []"
  shows "\<exists>a b. resolve_conflicts partners set_a set_b = Some (a, b)
           \<and> mset a = mset set_a \<and> mset b = mset set_b"
proof (cases "truthy partners")
  case False
  then show ?thesis by (simp add: resolve_conflicts_def)
next
  case True
  let ?B = "if partners_get partners (last set_a) = Some (hd set_b)
            then swap_first_allowed set_b (partners_get partners (last set_a)) [1..<length set_b]
            else Some set_b"
  let ?A = "if partners_get partners (last set_b) = Some (hd set_a)
            then swap_first_allowed set_a (partners_get partners (last set_b)) [1..<length set_a]
            else Some set_a"
  have "\<exists>b. ?B = Some b \<and> mset b = mset set_b"
    using swap_first_allowed_total [of "[1..<length set_b]" set_b "partners_get partners (last set_a)"]
      assms(2) by auto
  then obtain b where b: "?B = Some b" "mset b = mset set_b"
    by blast
  have "\<exists>a. ?A = Some a \<and> mset a = mset set_a"
    using swap_first_allowed_total [of "[1..<length set_a]" set_a "partners_get partners (last set_b)"]
      assms(1) by auto
  then obtain a where a: "?A = Some a" "mset a = mset set_a"
    by blast
  have "resolve_conflicts partners set_a set_b = ?B \<bind> (\<lambda>set_b'. ?A \<bind> (\<lambda>set_a'. Some (set_a', set_b')))"
    using True assms by (simp add: resolve_conflicts_def py_index_first py_index_last)
  also have "\<dots> = Some (a, b)"
    unfolding a(1) b(1) by simp
  finally show ?thesis
    using a(2) b(2) by blast
qed

lemma mset_eq_nonempty: "mset ys = mset xs \<Longrightarrow> xs \<noteq> [] \<Longrightarrow> ys \<noteq> []"
  by auto

lemma cycle_total:
  assumes "fair_rng rng" and "partition_into_sets (coin rng) ps pr = (a0, b0)"
    and "a0 \<noteq> []" and "b0 \<noteq> []"
  shows "\<exists>cycle. create_secret_santa_cycle rng ps pr = Some cycle"
proof -
  have sa: "shuffle_a rng a0 \<noteq> []" and sb: "shuffle_b rng b0 \<noteq> []"
    using assms(1,3,4) by (auto simp: fair_rng_def is_shuffle_def dest: mset_eq_nonempty)
  obtain a b where r: "resolve_conflicts pr (shuffle_a rng a0) (shuffle_b rng b0) = Some (a, b)"
      and m: "mset a = mset (shuffle_a rng a0)" "mset b = mset (shuffle_b rng b0)"
    using resolve_conflicts_total [OF sa sb] by blast
  have ne: "a \<noteq> []" "b \<noteq> []"
    using m sa sb by (auto dest: mset_eq_nonempty)
  obtain ca cb where c: "chain_links a [0..<length a - 1] = Some ca"
      "chain_links b [0..<length b - 1] = Some cb"
    using chain_links_range by blast
  show ?thesis
    using ne r assms(2) c
    by (simp add: create_secret_santa_cycle_def py_index_first py_index_last)
qed

lemma partition_loop_grows:
  "partition_loop cn pr ps (a, b, s, k) = (a', b', s', k') \<Longrightarrow>
     length a \<le> length a' \<and> length b \<le> length b'"
proof (induction ps arbitrary: a b s k)
  case Nil
  then show ?case by simp
next
  case (Cons p rest)
  show ?case
  proof (cases "p \<in> s")
    case True
    with Cons show ?thesis by simp
  next
    case False
    show ?thesis
    proof (cases "partners_get pr p")
      case None
      with False Cons.prems Cons.IH [of "a @ [p]" b "insert p s" k] Cons.IH [of a "b @ [p]" "insert p s" k]
      show ?thesis by (auto split: if_splits)
    next
      case (Some q)
      with False Cons.prems
        Cons.IH [of "a @ [p]" "b @ [q]" "insert q (insert p s)" "Suc k"]
        Cons.IH [of "a @ [q]" "b @ [p]" "insert q (insert p s)" "Suc k"]
      show ?thesis by (auto split: if_splits)
    qed
  qed
qed

lemma partition_loop_nonempty:
  assumes "partition_loop cn pr ps (a, b, s, k) = (a', b', s', k')" and "a \<noteq> []" and "b \<noteq> []"
  shows "a' \<noteq> [] \<and> b' \<noteq> []"
  using partition_loop_grows [OF assms(1)] assms(2,3) by auto

lemma partition_two_distinct:
  assumes "p1 \<noteq> p2" and "partition_into_sets cn (p1 # p2 # rest) pr = (a, b)"
  shows "a \<noteq> [] \<and> b \<noteq> []"
proof -
  obtain s k where loop: "partition_loop cn pr (p1 # p2 # rest) ([], [], {}, 0) = (a, b, s, k)"
    using assms(2) by (auto simp: partition_into_sets_def split: prod.splits)
  show ?thesis
  proof (cases "partners_get pr p1")
    case (Some q1)
    with loop show ?thesis
      by (auto split: if_splits option.splits dest!: partition_loop_nonempty)
  next
    case None
    note n1 = this
    show ?thesis
    proof (cases "partners_get pr p2")
      case (Some q2)
      with loop n1 assms(1) show ?thesis
        by (auto split: if_splits option.splits dest!: partition_loop_nonempty)
    next
      case None
      with loop n1 assms(1) show ?thesis
        by (auto split: if_splits option.splits dest!: partition_loop_nonempty)
    qed
  qed
qed

lemma partition_nonempty:
  assumes "distinct ps" and "2 \<le> length ps" and "partition_into_sets cn ps pr = (a, b)"
  shows "a \<noteq> [] \<and> b \<noteq> []"
proof -
  obtain p1 p2 rest where ps: "ps = p1 # p2 # rest"
    using assms(2) by (cases ps; cases "tl ps") auto
  with assms(1) have "p1 \<noteq> p2" by auto
  then show ?thesis
    using assms(3) unfolding ps by (rule partition_two_distinct)
qed

text \<open>
  Claim C10. For every input that validation accepts, whatever the random source does,
  both groups of the partition are non-empty, \<^verbatim>\<open>create_secret_santa_cycle\<close> returns a
  cycle (no read of a list is out of range), and the run ends without a traceback.
\<close>

theorem accepted_input_no_index_error:
  assumes so: "set_iteration so" and rng: "fair_rng rng"
    and ok: "snd (validate_and_deduplicate_inputs so ps pr) = Inr (ps', pr')"
  shows "fst (partition_into_sets (coin rng) ps' pr') \<noteq> []
       \<and> snd (partition_into_sets (coin rng) ps' pr') \<noteq> []
       \<and> (\<exists>cycle. create_secret_santa_cycle rng ps' pr' = Some cycle)
       \<and> Traceback \<notin> set (main rng so ps pr)"
proof -
  have big: "\<not> length (so ps) \<le> 2"
    using ok by (auto simp: snd_validate split: if_splits)
  have ps': "ps' = so ps"
    using ok big by (auto simp: snd_validate split: option.splits)
  have dist: "distinct ps'" and len: "2 \<le> length ps'"
    using so big by (simp_all add: ps' set_iteration_def)
  obtain a b where part: "partition_into_sets (coin rng) ps' pr' = (a, b)"
    by (cases "partition_into_sets (coin rng) ps' pr'")
  have ne: "a \<noteq> [] \<and> b \<noteq> []"
    using dist len part by (rule partition_nonempty)
  then obtain cycle where c: "create_secret_santa_cycle rng ps' pr' = Some cycle"
    using cycle_total [OF rng part] by blast
  have "Traceback \<notin> set (main rng so ps pr)"
    using ok c by (cases "validate_and_deduplicate_inputs so ps pr") (auto simp: main_def)
  with ne c part show ?thesis by simp
qed

theorem accepted_input_no_index_error_witness:
  "set_iteration (remdups :: string list \<Rightarrow> string list)
   \<and> fair_rng \<lparr>coin = (\<lambda>k. True), shuffle_a = rev, shuffle_b = (\<lambda>xs. xs :: string list)\<rparr>
   \<and> snd (validate_and_deduplicate_inputs remdups [''A'', ''B'', ''C'', ''D'']
             (Some [(''A'', ''B''), (''B'', ''A'')]))
       = Inr ([''A'', ''B'', ''C'', ''D''], Some [(''A'', ''B'')])
   \<and> partition_into_sets (\<lambda>k. True) [''A'', ''B'', ''C'', ''D''] (Some [(''A'', ''B'')])
       = ([''A'', ''C''], [''B'', ''D''])
   \<and> create_secret_santa_cycle
         \<lparr>coin = (\<lambda>k. True), shuffle_a = rev, shuffle_b = (\<lambda>xs. xs)\<rparr>
         [''A'', ''B'', ''C'', ''D''] (Some [(''A'', ''B'')])
       = Some [(''C'', ''A''), (''A'', ''D''), (''B'', ''C''), (''D'', ''B'')]"
proof -
  let ?rng = "\<lparr>coin = (\<lambda>k. True), shuffle_a = rev, shuffle_b = (\<lambda>xs. xs :: string list)\<rparr>"
  have h: "set_iteration (remdups :: string list \<Rightarrow> string list)"
    by (simp add: set_iteration_def)
  have r: "fair_rng ?rng"
    by (simp add: fair_rng_def is_shuffle_def)
  have ok: "snd (validate_and_deduplicate_inputs remdups [''A'', ''B'', ''C'', ''D'']
             (Some [(''A'', ''B''), (''B'', ''A'')]))
       = Inr ([''A'', ''B'', ''C'', ''D''], Some [(''A'', ''B'')])"
    by (simp add: validate_and_deduplicate_inputs_def validate_partnerships_def
                  deduplicate_partners_def)
  have p: "partition_into_sets (\<lambda>k. True) [''A'', ''B'', ''C'', ''D''] (Some [(''A'', ''B'')])
       = ([''A'', ''C''], [''B'', ''D''])"
    by (simp add: partition_into_sets_def partners_get_def)
  have c: "create_secret_santa_cycle ?rng [''A'', ''B'', ''C'', ''D''] (Some [(''A'', ''B'')])
       = Some [(''C'', ''A''), (''A'', ''D''), (''B'', ''C''), (''D'', ''B'')]"
    by (simp add: create_secret_santa_cycle_def p resolve_conflicts_def truthy_def
                  partners_get_def py_index_def upt_rec)
  show ?thesis
    using h r ok p c accepted_input_no_index_error [OF h r ok] by simp
qed

subsection \<open>Keys listed before their partners\<close>

text \<open>
  When the mapping is one-directional and every key comes before its partner in the
  participant list, the partitioner places every participant once and separates the
  partners, and the cycle visits every participant once as giver and once as receiver,
  without an edge from a participant to themselves. Inside each group no edge joins
  partners; the two edges between the groups are not covered.
\<close>

lemma partners_get_in: "partners_get pr k = Some v \<Longrightarrow> \<exists>d. pr = Some d \<and> (k, v) \<in> set d"
  by (auto simp: partners_get_def split: option.splits dest: map_of_SomeD)

lemma one_way_inj:
  assumes "one_way pr" and "partners_get pr k1 = Some v" and "partners_get pr k2 = Some v"
  shows "k1 = k2"
proof -
  obtain d where d: "pr = Some d" "(k1, v) \<in> set d" "(k2, v) \<in> set d"
    using assms(2,3) by (auto dest!: partners_get_in)
  have "distinct (map snd d)"
    using assms(1) d(1) by (simp add: one_way_def)
  then have "inj_on snd (set d)"
    by (simp add: distinct_map)
  from inj_onD [OF this, of "(k1, v)" "(k2, v)"] d(2,3) show ?thesis
    by simp
qed

lemma one_way_value_no_key:
  assumes "one_way pr" and "partners_get pr k = Some v"
  shows "partners_get pr v = None"
proof (rule ccontr)
  assume "partners_get pr v \<noteq> None"
  then obtain w where "partners_get pr v = Some w" by auto
  then obtain d where d: "pr = Some d" "(v, w) \<in> set d"
    by (auto dest!: partners_get_in)
  have "(k, v) \<in> set d"
    using assms(2) d(1) by (auto dest!: partners_get_in)
  then have "v \<in> snd ` set d" by force
  moreover have "v \<in> fst ` set d" using d(2) by force
  moreover have "fst ` set d \<inter> snd ` set d = {}"
    using assms(1) d(1) by (simp add: one_way_def)
  ultimately show False by auto
qed

lemma partition_loop_sound:
  assumes "partition_loop cn pr rest (a, b, s, n) = (a', b', s', n')"
    and "s = set a \<union> set b" and "distinct (a @ b)" and "distinct rest"
    and "one_way pr" and "keys_first pr rest"
    and "\<And>k v. k \<in> set rest \<Longrightarrow> partners_get pr k = Some v \<Longrightarrow> v \<notin> s"
    and "\<And>k v. k \<in> s \<Longrightarrow> partners_get pr k = Some v \<Longrightarrow>
            (k \<in> set a \<and> v \<in> set b) \<or> (k \<in> set b \<and> v \<in> set a)"
  shows "distinct (a' @ b')
       \<and> set a' \<union> set b' = s \<union> set rest \<union> {v. \<exists>k\<in>set rest. k \<notin> s \<and> partners_get pr k = Some v}
       \<and> (\<forall>k v. k \<in> s \<union> set rest \<longrightarrow> partners_get pr k = Some v \<longrightarrow>
             (k \<in> set a' \<and> v \<in> set b') \<or> (k \<in> set b' \<and> v \<in> set a'))"
  using assms
proof (induction rest arbitrary: a b s n)
  case Nil
  then show ?case by auto
next
  case (Cons p rest)
  note ow = \<open>one_way pr\<close>
  have later: "\<And>k. k \<in> set rest \<Longrightarrow> partners_get pr k \<noteq> Some p"
    using Cons.prems(6) by (simp add: list_all_iff)
  have kf: "keys_first pr rest" and dr: "distinct rest" and pr: "p \<notin> set rest"
    using Cons.prems(4,6) by simp_all
  show ?case
  proof (cases "p \<in> s")
    case True
    have nokey: "partners_get pr p = None"
    proof (rule ccontr)
      assume "partners_get pr p \<noteq> None"
      then obtain v where v: "partners_get pr p = Some v" by auto
      have "v \<notin> s" using Cons.prems(7) [of p v] v by simp
      moreover have "v \<in> s" using Cons.prems(8) [OF True v] Cons.prems(2) by auto
      ultimately show False by simp
    qed
    have loop: "partition_loop cn pr rest (a, b, s, n) = (a', b', s', n')"
      using Cons.prems(1) True by simp
    have IH: "distinct (a' @ b')
       \<and> set a' \<union> set b' = s \<union> set rest \<union> {v. \<exists>k\<in>set rest. k \<notin> s \<and> partners_get pr k = Some v}
       \<and> (\<forall>k v. k \<in> s \<union> set rest \<longrightarrow> partners_get pr k = Some v \<longrightarrow>
             (k \<in> set a' \<and> v \<in> set b') \<or> (k \<in> set b' \<and> v \<in> set a'))"
      using Cons.prems(7,8)
      by (intro Cons.IH [OF loop Cons.prems(2,3) dr ow kf]) auto
    show ?thesis
      using IH True nokey by auto
  next
    case False
    note fresh = this
    show ?thesis
    proof (cases "partners_get pr p")
      case None
      let ?a = "if length a \<le> length b then a @ [p] else a"
      let ?b = "if length a \<le> length b then b else b @ [p]"
      have loop: "partition_loop cn pr rest (?a, ?b, insert p s, n) = (a', b', s', n')"
        using Cons.prems(1) fresh None by (simp split: if_splits)
      have s: "insert p s = set ?a \<union> set ?b"
        using Cons.prems(2) by auto
      have d: "distinct (?a @ ?b)"
        using Cons.prems(2,3) fresh by auto
      have pend: "\<And>k v. k \<in> set rest \<Longrightarrow> partners_get pr k = Some v \<Longrightarrow> v \<notin> insert p s"
        using Cons.prems(7) later by auto
      have sep: "\<And>k v. k \<in> insert p s \<Longrightarrow> partners_get pr k = Some v \<Longrightarrow>
            (k \<in> set ?a \<and> v \<in> set ?b) \<or> (k \<in> set ?b \<and> v \<in> set ?a)"
        using Cons.prems(8) None by auto
      have IH: "distinct (a' @ b')
       \<and> set a' \<union> set b' = insert p s \<union> set rest
            \<union> {v. \<exists>k\<in>set rest. k \<notin> insert p s \<and> partners_get pr k = Some v}
       \<and> (\<forall>k v. k \<in> insert p s \<union> set rest \<longrightarrow> partners_get pr k = Some v \<longrightarrow>
             (k \<in> set a' \<and> v \<in> set b') \<or> (k \<in> set b' \<and> v \<in> set a'))"
        by (rule Cons.IH [OF loop s d dr ow kf pend sep])
      show ?thesis
        using IH None pr by auto
    next
      case (Some v)
      let ?a = "if cn n then a @ [p] else a @ [v]"
      let ?b = "if cn n then b @ [v] else b @ [p]"
      let ?s = "insert v (insert p s)"
      have vs: "v \<notin> s"
        using Cons.prems(7) [of p v] Some by simp
      have vp: "v \<noteq> p"
        using one_way_value_no_key [OF ow Some] Some by auto
      have vkey: "partners_get pr v = None"
        using one_way_value_no_key [OF ow Some] .
      have loop: "partition_loop cn pr rest (?a, ?b, ?s, Suc n) = (a', b', s', n')"
        using Cons.prems(1) fresh Some by (simp split: if_splits)
      have s: "?s = set ?a \<union> set ?b"
        using Cons.prems(2) by auto
      have d: "distinct (?a @ ?b)"
        using Cons.prems(2,3) fresh vs vp by auto
      have pend: "\<And>k w. k \<in> set rest \<Longrightarrow> partners_get pr k = Some w \<Longrightarrow> w \<notin> ?s"
      proof -
        fix k w assume k: "k \<in> set rest" and w: "partners_get pr k = Some w"
        have "w \<notin> s" using Cons.prems(7) [of k w] k w by simp
        moreover have "w \<noteq> p" using later [OF k] w by auto
        moreover have "w \<noteq> v"
        proof
          assume "w = v"
          then have "k = p" using one_way_inj [OF ow _ Some, of k] w by simp
          with k pr show False by simp
        qed
        ultimately show "w \<notin> ?s" by simp
      qed
      have sep: "\<And>k w. k \<in> ?s \<Longrightarrow> partners_get pr k = Some w \<Longrightarrow>
            (k \<in> set ?a \<and> w \<in> set ?b) \<or> (k \<in> set ?b \<and> w \<in> set ?a)"
        using Cons.prems(8) Some vkey by auto
      have IH: "distinct (a' @ b')
       \<and> set a' \<union> set b' = ?s \<union> set rest
            \<union> {w. \<exists>k\<in>set rest. k \<notin> ?s \<and> partners_get pr k = Some w}
       \<and> (\<forall>k w. k \<in> ?s \<union> set rest \<longrightarrow> partners_get pr k = Some w \<longrightarrow>
             (k \<in> set a' \<and> w \<in> set b') \<or> (k \<in> set b' \<and> w \<in> set a'))"
        by (rule Cons.IH [OF loop s d dr ow kf pend sep])
      have keys_rest: "\<And>k w. k \<in> set rest \<Longrightarrow> partners_get pr k = Some w \<Longrightarrow> k \<noteq> v"
        using vkey by auto
      have e: "{w. \<exists>k\<in>set (p # rest). k \<notin> s \<and> partners_get pr k = Some w}
             = insert v {w. \<exists>k\<in>set rest. k \<notin> ?s \<and> partners_get pr k = Some w}"
        using Some fresh pr keys_rest by auto
      have "set a' \<union> set b' = s \<union> set (p # rest)
              \<union> {w. \<exists>k\<in>set (p # rest). k \<notin> s \<and> partners_get pr k = Some w}"
        unfolding e using IH by auto
      moreover have "\<forall>k w. k \<in> s \<union> set (p # rest) \<longrightarrow> partners_get pr k = Some w \<longrightarrow>
             (k \<in> set a' \<and> w \<in> set b') \<or> (k \<in> set b' \<and> w \<in> set a')"
        using IH by auto
      ultimately show ?thesis
        using IH by blast
    qed
  qed
qed

lemma partition_sound:
  assumes ps: "distinct ps" and ow: "one_way pr" and kf: "keys_first pr ps"
    and known: "partnered_individuals pr \<subseteq> set ps"
    and part: "partition_into_sets cn ps pr = (a, b)"
  shows "distinct (a @ b) \<and> set a \<union> set b = set ps \<and> separates pr a b"
proof -
  obtain s n where loop: "partition_loop cn pr ps ([], [], {}, 0) = (a, b, s, n)"
    using part by (auto simp: partition_into_sets_def split: prod.splits)
  have inv: "distinct (a @ b)
       \<and> set a \<union> set b = {} \<union> set ps \<union> {v. \<exists>k\<in>set ps. k \<notin> {} \<and> partners_get pr k = Some v}
       \<and> (\<forall>k v. k \<in> {} \<union> set ps \<longrightarrow> partners_get pr k = Some v \<longrightarrow>
             (k \<in> set a \<and> v \<in> set b) \<or> (k \<in> set b \<and> v \<in> set a))"
    by (rule partition_loop_sound [OF loop _ _ ps ow kf]) simp_all
  have vals: "\<And>k v. partners_get pr k = Some v \<Longrightarrow> k \<in> set ps \<and> v \<in> set ps"
  proof -
    fix k v assume "partners_get pr k = Some v"
    then obtain d where "pr = Some d" "(k, v) \<in> set d"
      by (auto dest!: partners_get_in)
    then have "k \<in> partnered_individuals pr" "v \<in> partnered_individuals pr"
      by (force simp: partnered_individuals_def)+
    with known show "k \<in> set ps \<and> v \<in> set ps" by auto
  qed
  have sets: "set a \<union> set b = set ps"
    using inv vals by auto
  have "separates pr a b"
  proof (cases pr)
    case None
    then show ?thesis by (simp add: separates_def)
  next
    case (Some d)
    have dk: "distinct (map fst d)"
      using ow Some by (simp add: one_way_def)
    have "\<And>k v. (k, v) \<in> set d \<Longrightarrow>
            \<not> (k \<in> set a \<and> v \<in> set a) \<and> \<not> (k \<in> set b \<and> v \<in> set b)"
    proof -
      fix k v assume kv: "(k, v) \<in> set d"
      then have g: "partners_get pr k = Some v"
        using dk Some by (simp add: partners_get_def)
      then have "k \<in> set ps" using vals by blast
      then have "(k \<in> set a \<and> v \<in> set b) \<or> (k \<in> set b \<and> v \<in> set a)"
        using inv g by blast
      moreover have "set a \<inter> set b = {}" using inv by simp
      ultimately show "\<not> (k \<in> set a \<and> v \<in> set a) \<and> \<not> (k \<in> set b \<and> v \<in> set b)"
        by blast
    qed
    then show ?thesis
      using Some by (auto simp: separates_def list_all_iff)
  qed
  with inv sets show ?thesis by simp
qed

lemma chain_links_zip: "chain_links xs [0..<length xs - 1] = Some (zip (butlast xs) (tl xs))"
proof -
  have "map (\<lambda>i. (xs ! i, xs ! Suc i)) [0..<length xs - 1] = zip (butlast xs) (tl xs)"
    by (rule nth_equalityI) (simp_all add: nth_butlast nth_tl)
  then show ?thesis
    unfolding chain_links_range by simp
qed

lemma fst_links: "map fst (zip (butlast xs) (tl xs)) = butlast xs"
  by (simp add: map_fst_zip)

lemma snd_links: "map snd (zip (butlast xs) (tl xs)) = tl xs"
  by (simp add: map_snd_zip)

lemma links_no_self_edge:
  assumes "distinct xs"
  shows "no_self_edge (zip (butlast xs) (tl xs))"
proof -
  have "\<And>i. i < length xs - 1 \<Longrightarrow> butlast xs ! i \<noteq> tl xs ! i"
    using assms by (simp add: nth_butlast nth_tl nth_eq_iff_index_eq)
  then show ?thesis
    by (auto simp: no_self_edge_def list_all_length)
qed

lemma cycle_of_groups:
  assumes "partition_into_sets (coin rng) ps pr = (a0, b0)"
    and "resolve_conflicts pr (shuffle_a rng a0) (shuffle_b rng b0) = Some (a, b)"
    and "a \<noteq> []" and "b \<noteq> []"
  shows "create_secret_santa_cycle rng ps pr =
           Some (zip (butlast a) (tl a) @ [(last a, hd b), (last b, hd a)] @ zip (butlast b) (tl b))"
proof -
  have la: "chain_links a [0..<length a - 1] = Some (zip (butlast a) (tl a))"
    and lb: "chain_links b [0..<length b - 1] = Some (zip (butlast b) (tl b))"
    by (rule chain_links_zip)+
  show ?thesis
    using assms la lb
    by (simp add: create_secret_santa_cycle_def py_index_first py_index_last)
qed

lemma cycle_of_sound_partition:
  assumes rng: "fair_rng rng" and ps: "distinct ps"
    and part: "partition_into_sets (coin rng) ps pr = (a0, b0)"
    and d0: "distinct (a0 @ b0)" and s0: "set a0 \<union> set b0 = set ps"
    and ne0: "a0 \<noteq> []" "b0 \<noteq> []"
  shows "\<exists>cycle. create_secret_santa_cycle rng ps pr = Some cycle
           \<and> visits_each_once ps cycle \<and> no_self_edge cycle"
proof -
  have sa: "mset (shuffle_a rng a0) = mset a0" and sb: "mset (shuffle_b rng b0) = mset b0"
    using rng by (simp_all add: fair_rng_def is_shuffle_def)
  have sne: "shuffle_a rng a0 \<noteq> []" "shuffle_b rng b0 \<noteq> []"
    using sa sb ne0 by (auto dest: mset_eq_nonempty)
  obtain a b where r: "resolve_conflicts pr (shuffle_a rng a0) (shuffle_b rng b0) = Some (a, b)"
      and m: "mset a = mset a0" "mset b = mset b0"
    using resolve_conflicts_total [OF sne] sa sb by metis
  have ne: "a \<noteq> []" "b \<noteq> []"
    using m ne0 by (auto dest: mset_eq_nonempty)
  have da: "distinct a" and db: "distinct b" and disj: "set a \<inter> set b = {}"
    using d0 mset_eq_imp_distinct_iff [OF m(1)] mset_eq_imp_distinct_iff [OF m(2)]
      mset_eq_setD [OF m(1)] mset_eq_setD [OF m(2)] by auto
  let ?c = "zip (butlast a) (tl a) @ [(last a, hd b), (last b, hd a)] @ zip (butlast b) (tl b)"
  have c: "create_secret_santa_cycle rng ps pr = Some ?c"
    using part r ne by (rule cycle_of_groups)
  have all: "mset ps = mset a + mset b"
  proof -
    have "set ps = set (a0 @ b0)"
      using s0 by auto
    then have "mset ps = mset (a0 @ b0)"
      using set_eq_iff_mset_eq_distinct [OF ps d0] by blast
    then show ?thesis by (simp add: m)
  qed
  have "mset (map fst ?c) = mset (butlast a @ [last a]) + mset (butlast b @ [last b])"
    by (simp add: fst_links del: append_butlast_last_id)
  then have givers: "mset (map fst ?c) = mset ps"
    using ne by (simp add: all)
  have "mset (map snd ?c) = mset (hd a # tl a) + mset (hd b # tl b)"
    by (simp add: snd_links del: list.collapse)
  then have receivers: "mset (map snd ?c) = mset ps"
    using ne by (simp add: all)
  have ends: "last a \<in> set a" "hd a \<in> set a" "last b \<in> set b" "hd b \<in> set b"
    using ne by simp_all
  have cross: "last a \<noteq> hd b" "last b \<noteq> hd a"
    using ends disj by fastforce+
  have loops: "no_self_edge ?c"
    using links_no_self_edge [OF da] links_no_self_edge [OF db] cross
    by (simp add: no_self_edge_def)
  show ?thesis
    unfolding visits_each_once_def
    using c givers receivers loops by blast
qed

lemma keys_first_cycle:
  assumes "fair_rng rng" and "distinct ps" and "2 \<le> length ps"
    and "one_way pr" and "keys_first pr ps" and "partnered_individuals pr \<subseteq> set ps"
  shows "\<exists>cycle. create_secret_santa_cycle rng ps pr = Some cycle
           \<and> visits_each_once ps cycle \<and> no_self_edge cycle"
proof -
  obtain a b where part: "partition_into_sets (coin rng) ps pr = (a, b)"
    by (cases "partition_into_sets (coin rng) ps pr")
  have "distinct (a @ b) \<and> set a \<union> set b = set ps \<and> separates pr a b"
    using assms(2,4,5,6) part by (rule partition_sound)
  moreover have "a \<noteq> [] \<and> b \<noteq> []"
    using assms(2,3) part by (rule partition_nonempty)
  ultimately show ?thesis
    using cycle_of_sound_partition [OF assms(1,2) part] by blast
qed

lemma separates_get:
  assumes "separates pr a b" and "partners_get pr k = Some v"
  shows "\<not> (k \<in> set a \<and> v \<in> set a) \<and> \<not> (k \<in> set b \<and> v \<in> set b)"
proof -
  obtain d where "pr = Some d" "(k, v) \<in> set d"
    using assms(2) by (auto dest!: partners_get_in)
  with assms(1) show ?thesis
    by (auto simp: separates_def list_all_iff)
qed

lemma links_respect_partners:
  assumes "separates pr a b" and "set xs = set a \<or> set xs = set b"
  shows "respects_partners pr (zip (butlast xs) (tl xs))"
proof -
  have "\<And>g r. (g, r) \<in> set (zip (butlast xs) (tl xs)) \<Longrightarrow>
          partners_get pr g \<noteq> Some r \<and> partners_get pr r \<noteq> Some g"
  proof -
    fix g r assume "(g, r) \<in> set (zip (butlast xs) (tl xs))"
    then have "g \<in> set (butlast xs)" "r \<in> set (tl xs)"
      by (auto dest: set_zip_leftD set_zip_rightD)
    then have "g \<in> set xs" "r \<in> set xs"
      by (auto dest: in_set_butlastD list.set_sel(2) [rotated])
    then show "partners_get pr g \<noteq> Some r \<and> partners_get pr r \<noteq> Some g"
      using assms(2) separates_get [OF assms(1), of g r] separates_get [OF assms(1), of r g]
      by auto
  qed
  then show ?thesis
    by (auto simp: respects_partners_def list_all_iff)
qed

lemma cycle_shape:
  assumes rng: "fair_rng rng"
    and part: "partition_into_sets (coin rng) ps pr = (a0, b0)"
    and ne0: "a0 \<noteq> []" "b0 \<noteq> []"
  shows "\<exists>a b. mset a = mset a0 \<and> mset b = mset b0
           \<and> create_secret_santa_cycle rng ps pr =
               Some (zip (butlast a) (tl a) @ [(last a, hd b), (last b, hd a)]
                     @ zip (butlast b) (tl b))"
proof -
  have sa: "mset (shuffle_a rng a0) = mset a0" and sb: "mset (shuffle_b rng b0) = mset b0"
    using rng by (simp_all add: fair_rng_def is_shuffle_def)
  have sne: "shuffle_a rng a0 \<noteq> []" "shuffle_b rng b0 \<noteq> []"
    using sa sb ne0 by (auto dest: mset_eq_nonempty)
  obtain a b where r: "resolve_conflicts pr (shuffle_a rng a0) (shuffle_b rng b0) = Some (a, b)"
      and m: "mset a = mset a0" "mset b = mset b0"
    using resolve_conflicts_total [OF sne] sa sb by metis
  have ne: "a \<noteq> []" "b \<noteq> []"
    using m ne0 by (auto dest: mset_eq_nonempty)
  show ?thesis
    using cycle_of_groups [OF part r ne] m by blast
qed

lemma keys_first_inner_edges:
  assumes "fair_rng rng" and "distinct ps" and "2 \<le> length ps"
    and "one_way pr" and "keys_first pr ps" and "partnered_individuals pr \<subseteq> set ps"
  shows "\<exists>cycle_a cross_links cycle_b.
           create_secret_santa_cycle rng ps pr = Some (cycle_a @ cross_links @ cycle_b)
           \<and> length cross_links = 2
           \<and> respects_partners pr cycle_a \<and> respects_partners pr cycle_b"
proof -
  obtain a0 b0 where part: "partition_into_sets (coin rng) ps pr = (a0, b0)"
    by (cases "partition_into_sets (coin rng) ps pr")
  have sep: "separates pr a0 b0"
    using partition_sound [OF assms(2,4,5,6) part] by simp
  have ne0: "a0 \<noteq> []" "b0 \<noteq> []"
    using partition_nonempty [OF assms(2,3) part] by simp_all
  obtain a b where m: "mset a = mset a0" "mset b = mset b0"
    and c: "create_secret_santa_cycle rng ps pr =
               Some (zip (butlast a) (tl a) @ [(last a, hd b), (last b, hd a)]
                     @ zip (butlast b) (tl b))"
    using cycle_shape [OF assms(1) part ne0] by blast
  have "set a = set a0" "set b = set b0"
    using m by (auto dest: mset_eq_setD)
  then have "respects_partners pr (zip (butlast a) (tl a))"
    and "respects_partners pr (zip (butlast b) (tl b))"
    using sep by (auto intro: links_respect_partners)
  with c show ?thesis
    by (intro exI [of _ "zip (butlast a) (tl a)"] exI [of _ "[(last a, hd b), (last b, hd a)]"]
              exI [of _ "zip (butlast b) (tl b)"]) simp
qed

lemma keys_first_example:
  "one_way (Some [(''A'', ''B'')]) \<and> keys_first (Some [(''A'', ''B'')]) [''A'', ''B'', ''C'', ''D'']
   \<and> \<not> keys_first (Some [(''A'', ''B'')]) [''B'', ''A'', ''C'']"
  by (simp add: one_way_def partners_get_def)

subsection \<open>A partner that is placed twice\<close>

text \<open>
  Deduplication keeps one direction of every partnership: \<^verbatim>\<open>{A: B, B: A}\<close> becomes
  \<^verbatim>\<open>{A: B}\<close>. The partitioner and the assembler look a participant up among the keys
  only. So when \<^verbatim>\<open>B\<close> comes before \<^verbatim>\<open>A\<close> in the participant list, \<^verbatim>\<open>B\<close> is placed as
  an unpartnered participant, and placed a second time as the partner of \<^verbatim>\<open>A\<close>
  (line 30 or 33 appends the partner without looking at \<^verbatim>\<open>assigned\<close>). The theorems
  below run the code on such inputs, from normalization on; the normalized values are
  accepted by the validation as they are, so a direct call of the partitioner or the
  assembler with them is a call on valid input as well.
\<close>

text \<open>
  Claim C4, at the participants \<^verbatim>\<open>B, A, C\<close> with the partnership of \<^verbatim>\<open>A\<close> and \<^verbatim>\<open>B\<close>:
  for either outcome of the one random draw, \<^verbatim>\<open>B\<close> is in the groups twice; the groups
  share \<^verbatim>\<open>B\<close> and group A holds both partners, or group A holds \<^verbatim>\<open>B\<close> twice.
\<close>

theorem partition_repeats_partner:
  "snd (validate_and_deduplicate_inputs remdups [''B'', ''A'', ''C'']
          (Some [(''A'', ''B''), (''B'', ''A'')]))
     = Inr ([''B'', ''A'', ''C''], Some [(''A'', ''B'')])
   \<and> snd (validate_and_deduplicate_inputs remdups [''B'', ''A'', ''C''] (Some [(''A'', ''B'')]))
     = Inr ([''B'', ''A'', ''C''], Some [(''A'', ''B'')])
   \<and> partition_into_sets cn [''B'', ''A'', ''C''] (Some [(''A'', ''B'')])
     = (if cn 0 then ([''B'', ''A''], [''B'', ''C'']) else ([''B'', ''B''], [''A'', ''C'']))
   \<and> \<not> distinct (fst (partition_into_sets cn [''B'', ''A'', ''C''] (Some [(''A'', ''B'')]))
                   @ snd (partition_into_sets cn [''B'', ''A'', ''C''] (Some [(''A'', ''B'')])))
   \<and> \<not> separates (Some [(''A'', ''B'')]) [''B'', ''A''] [''B'', ''C'']"
  by (simp add: validate_and_deduplicate_inputs_def validate_partnerships_def
                deduplicate_partners_def partition_into_sets_def partners_get_def
                separates_def)

text \<open>
  Claim C1, at the same input, the draw being true and the shuffles leaving the order:
  \<^verbatim>\<open>B\<close> is a giver twice and a receiver twice in the cycle returned.
\<close>

theorem cycle_repeats_participant:
  "snd (validate_and_deduplicate_inputs remdups [''B'', ''A'', ''C'']
          (Some [(''A'', ''B''), (''B'', ''A'')]))
     = Inr ([''B'', ''A'', ''C''], Some [(''A'', ''B'')])
   \<and> snd (validate_and_deduplicate_inputs remdups [''B'', ''A'', ''C''] (Some [(''A'', ''B'')]))
     = Inr ([''B'', ''A'', ''C''], Some [(''A'', ''B'')])
   \<and> create_secret_santa_cycle
         \<lparr>coin = (\<lambda>k. True), shuffle_a = (\<lambda>xs. xs), shuffle_b = (\<lambda>xs. xs)\<rparr>
         [''B'', ''A'', ''C''] (Some [(''A'', ''B'')])
     = Some [(''B'', ''A''), (''A'', ''C''), (''B'', ''B''), (''C'', ''B'')]
   \<and> \<not> visits_each_once [''B'', ''A'', ''C'']
         [(''B'', ''A''), (''A'', ''C''), (''B'', ''B''), (''C'', ''B'')]"
proof -
  have v: "\<not> visits_each_once [''B'', ''A'', ''C'']
         [(''B'', ''A''), (''A'', ''C''), (''B'', ''B''), (''C'', ''B'')]"
    by (auto simp: visits_each_once_def dest: mset_eq_length)
  have p: "partition_into_sets (\<lambda>k. True) [''B'', ''A'', ''C''] (Some [(''A'', ''B'')])
       = ([''B'', ''A''], [''B'', ''C''])"
    by (simp add: partition_into_sets_def partners_get_def)
  show ?thesis
    using v
    by (simp add: validate_and_deduplicate_inputs_def validate_partnerships_def
                  deduplicate_partners_def
                  create_secret_santa_cycle_def p resolve_conflicts_def truthy_def
                  partners_get_def py_index_def upt_rec)
qed

text \<open>
  Claim C3, at the same input, the draw being false and the shuffles leaving the order:
  the cycle returned has the edge from \<^verbatim>\<open>B\<close> to \<^verbatim>\<open>B\<close>.
\<close>

theorem cycle_has_self_edge:
  "snd (validate_and_deduplicate_inputs remdups [''B'', ''A'', ''C'']
          (Some [(''A'', ''B''), (''B'', ''A'')]))
     = Inr ([''B'', ''A'', ''C''], Some [(''A'', ''B'')])
   \<and> snd (validate_and_deduplicate_inputs remdups [''B'', ''A'', ''C''] (Some [(''A'', ''B'')]))
     = Inr ([''B'', ''A'', ''C''], Some [(''A'', ''B'')])
   \<and> create_secret_santa_cycle
         \<lparr>coin = (\<lambda>k. False), shuffle_a = (\<lambda>xs. xs), shuffle_b = (\<lambda>xs. xs)\<rparr>
         [''B'', ''A'', ''C''] (Some [(''A'', ''B'')])
     = Some [(''B'', ''B''), (''B'', ''A''), (''C'', ''B''), (''A'', ''C'')]
   \<and> \<not> no_self_edge [(''B'', ''B''), (''B'', ''A''), (''C'', ''B''), (''A'', ''C'')]"
proof -
  have v: "\<not> no_self_edge [(''B'', ''B''), (''B'', ''A''), (''C'', ''B''), (''A'', ''C'')]"
    by (simp add: no_self_edge_def)
  have p: "partition_into_sets (\<lambda>k. False) [''B'', ''A'', ''C''] (Some [(''A'', ''B'')])
       = ([''B'', ''B''], [''A'', ''C''])"
    by (simp add: partition_into_sets_def partners_get_def)
  show ?thesis
    using v
    by (simp add: validate_and_deduplicate_inputs_def validate_partnerships_def
                  deduplicate_partners_def
                  create_secret_santa_cycle_def p resolve_conflicts_def truthy_def
                  partners_get_def py_index_def upt_rec)
qed

text \<open>
  Claim C2, at the participants \<^verbatim>\<open>A, B, C, D\<close> with the partnership of \<^verbatim>\<open>A\<close> and \<^verbatim>\<open>B\<close>:
  both groups have two members and every participant is placed once, group A ends with
  \<^verbatim>\<open>B\<close> and group B starts with \<^verbatim>\<open>A\<close>. The check of line 65 asks whether \<^verbatim>\<open>B\<close> is
  a key, which it no longer is, so the cycle returned has the edge from \<^verbatim>\<open>B\<close> to its
  partner \<^verbatim>\<open>A\<close>.
\<close>

theorem cycle_joins_partners:
  "snd (validate_and_deduplicate_inputs remdups [''A'', ''B'', ''C'', ''D'']
          (Some [(''A'', ''B''), (''B'', ''A'')]))
     = Inr ([''A'', ''B'', ''C'', ''D''], Some [(''A'', ''B'')])
   \<and> snd (validate_and_deduplicate_inputs remdups [''A'', ''B'', ''C'', ''D'']
          (Some [(''A'', ''B'')]))
     = Inr ([''A'', ''B'', ''C'', ''D''], Some [(''A'', ''B'')])
   \<and> partition_into_sets (\<lambda>k. False) [''A'', ''B'', ''C'', ''D''] (Some [(''A'', ''B'')])
     = ([''B'', ''C''], [''A'', ''D''])
   \<and> create_secret_santa_cycle
         \<lparr>coin = (\<lambda>k. False), shuffle_a = rev, shuffle_b = (\<lambda>xs. xs)\<rparr>
         [''A'', ''B'', ''C'', ''D''] (Some [(''A'', ''B'')])
     = Some [(''C'', ''B''), (''B'', ''A''), (''D'', ''C''), (''A'', ''D'')]
   \<and> \<not> respects_partners (Some [(''A'', ''B'')])
         [(''C'', ''B''), (''B'', ''A''), (''D'', ''C''), (''A'', ''D'')]"
proof -
  have v: "\<not> respects_partners (Some [(''A'', ''B'')])
         [(''C'', ''B''), (''B'', ''A''), (''D'', ''C''), (''A'', ''D'')]"
    by (simp add: respects_partners_def partners_get_def)
  have p: "partition_into_sets (\<lambda>k. False) [''A'', ''B'', ''C'', ''D''] (Some [(''A'', ''B'')])
       = ([''B'', ''C''], [''A'', ''D''])"
    by (simp add: partition_into_sets_def partners_get_def)
  show ?thesis
    using v
    by (simp add: validate_and_deduplicate_inputs_def validate_partnerships_def
                  deduplicate_partners_def
                  create_secret_santa_cycle_def p resolve_conflicts_def truthy_def
                  partners_get_def py_index_def upt_rec)
qed

section \<open>The command-line run\<close>

text \<open>
  Claim C6. When validation raises one of its errors, the run prints the warnings and the
  error and nothing else: no header, no edge of a cycle. The output does not depend on
  the random source, which is never consulted.
\<close>

theorem validation_error_aborts:
  assumes "snd (validate_and_deduplicate_inputs so ps pr) = Inl e"
  shows "main rng so ps pr = map WarningLine (fst (validate_and_deduplicate_inputs so ps pr)) @ [ErrorLine e]
       \<and> CycleHeader \<notin> set (main rng so ps pr)
       \<and> (\<forall>g r. EdgeLine g r \<notin> set (main rng so ps pr))
       \<and> (\<forall>rng'. main rng' so ps pr = main rng so ps pr)"
proof -
  have m: "\<And>r. main r so ps pr = map WarningLine (fst (validate_and_deduplicate_inputs so ps pr)) @ [ErrorLine e]"
    using assms by (cases "validate_and_deduplicate_inputs so ps pr") (simp add: main_def)
  show ?thesis
    by (auto simp: m)
qed

theorem validation_error_aborts_witness:
  "snd (validate_and_deduplicate_inputs remdups [''Alice'', ''Bob'', ''Alice''] None)
     = Inl InsufficientParticipants
   \<and> main \<lparr>coin = (\<lambda>k. True), shuffle_a = rev, shuffle_b = rev\<rparr> remdups
        [''Alice'', ''Bob'', ''Alice''] None
     = [WarningLine (DuplicateParticipants 1), ErrorLine InsufficientParticipants]"
proof -
  have e: "snd (validate_and_deduplicate_inputs remdups [''Alice'', ''Bob'', ''Alice''] None)
           = Inl InsufficientParticipants"
    by (simp add: validate_and_deduplicate_inputs_def deduplicate_partners_def)
  have w: "fst (validate_and_deduplicate_inputs remdups [''Alice'', ''Bob'', ''Alice''] None)
           = [DuplicateParticipants 1]"
    by (simp add: validate_and_deduplicate_inputs_def deduplicate_partners_def)
  show ?thesis
    using e validation_error_aborts [OF e, of "\<lparr>coin = (\<lambda>k. True), shuffle_a = rev, shuffle_b = rev\<rparr>"]
    by (simp add: w)
qed

end
